theory Spec2Isabelle
  imports Complex_Main "HOL-Library.Multiset"
begin

section \<open>Python values used by \<open>magma_liquidity_chart.py\<close>\<close>

text \<open>
  The exceptions the modelled code can raise. Every function that can raise returns
  \<open>py_error + 'a\<close>, with \<open>Inl\<close> for the exception.
\<close>

datatype py_error = ZeroDivisionError | OverflowError | IndexError | ValueError | KeyError

text \<open>\<open>d.get(key, default)\<close> on a key that may be absent: \<open>None\<close> is the absent key.\<close>

definition dict_get :: "'a option \<Rightarrow> 'a \<Rightarrow> 'a" where
  "dict_get field dflt = (case field of None \<Rightarrow> dflt | Some v \<Rightarrow> v)"

text \<open>
  \<open>str.upper()\<close>. Strings are byte lists here; the ASCII letters are mapped as Python
  maps them and every other byte is kept. The classifier only compares the result with
  the ASCII words \<open>TOR\<close> and \<open>CLEARNET\<close>, whose letters are the upper case of no
  character outside \<open>a..z\<close>, so the comparison is decided as in Python.
\<close>

definition char_upper :: "char \<Rightarrow> char" where
  "char_upper c =
     (let n = (of_char c :: nat) in if 97 \<le> n \<and> n \<le> 122 then char_of (n - 32) else c)"

definition upper :: "string \<Rightarrow> string" where
  "upper s = map char_upper s"

subsection \<open>Integer division\<close>

text \<open>\<open>a // b\<close>: floor division, \<open>ZeroDivisionError\<close> on a zero divisor.\<close>

definition py_floordiv :: "int \<Rightarrow> int \<Rightarrow> py_error + int" where
  "py_floordiv a b = (if b = 0 then Inl ZeroDivisionError else Inr (a div b))"

subsection \<open>True division of integers\<close>

text \<open>
  \<open>a / b\<close> on two Python integers is the IEEE 754 double nearest to the exact quotient
  (ties to even), whatever the size of the operands; it raises \<open>ZeroDivisionError\<close> on
  a zero divisor and \<open>OverflowError\<close> when the rounded quotient is no double. The
  double is computed here with integer arithmetic and returned as the rational number it
  denotes: 53 significant bits, and an exponent no smaller than that of the subnormal
  numbers.
\<close>

function bit_length :: "int \<Rightarrow> int" where
  "bit_length n = (if n \<le> 0 then 0 else 1 + bit_length (n div 2))"
  by pat_completeness auto
termination
  by (relation "measure nat") auto

declare bit_length.simps [simp del]

text \<open>The exponent \<open>e\<close> with \<open>2 ^ e \<le> a / b < 2 ^ (e + 1)\<close>, for positive \<open>a\<close> and \<open>b\<close>.\<close>

definition quot_exponent :: "int \<Rightarrow> int \<Rightarrow> int" where
  "quot_exponent a b =
     (let d = bit_length a - bit_length b in
      if (if 0 \<le> d then b * 2 ^ nat d \<le> a else b \<le> a * 2 ^ nat (- d)) then d else d - 1)"

text \<open>The integer nearest to \<open>n / d\<close>, a tie going to the even one (\<open>0 \<le> n\<close>, \<open>0 < d\<close>).\<close>

definition round_half_even :: "int \<Rightarrow> int \<Rightarrow> int" where
  "round_half_even n d =
     (let q = n div d; r = n mod d in
      if 2 * r < d then q else if d < 2 * r then q + 1 else if even q then q else q + 1)"

text \<open>The double nearest to \<open>a / b\<close> as a pair \<open>(m, t)\<close> that stands for \<open>m * 2 ^ t\<close>.\<close>

definition nearest_double :: "int \<Rightarrow> int \<Rightarrow> int \<times> int" where
  "nearest_double a b =
     (let t = max (quot_exponent a b - 52) (- 1074) in
      (if 0 \<le> t then round_half_even a (b * 2 ^ nat t)
       else round_half_even (a * 2 ^ nat (- t)) b, t))"

definition py_truediv :: "int \<Rightarrow> int \<Rightarrow> py_error + rat" where
  "py_truediv a b =
     (if b = 0 then Inl ZeroDivisionError
      else if a = 0 then Inr 0
      else
        (case nearest_double \<bar>a\<bar> \<bar>b\<bar> of (m, t) \<Rightarrow>
          if 0 \<le> t \<and> 2 ^ 1024 \<le> m * 2 ^ nat t then Inl OverflowError
          else Inr (of_int (sgn a * sgn b * m) *
                    (if 0 \<le> t then 2 ^ nat t else 1 / 2 ^ nat (- t)))))"

text \<open>\<open>int(x)\<close> on a finite float: truncation towards zero.\<close>

definition py_int :: "rat \<Rightarrow> int" where
  "py_int x = (if 0 \<le> x then \<lfloor>x\<rfloor> else \<lceil>x\<rceil>)"


subsection \<open>Floats\<close>









subsection \<open>Currency conversion\<close>



section \<open>Offers\<close>

text \<open>
  One entry of an offer's \<open>conditions\<close> list. The three keys are read with
  \<open>cond.get(...)\<close>, so each may be absent.
\<close>

record cond =
  condition :: "string option"
  operator :: "string option"
  val :: "string option"

text \<open>
  An offer as \<open>knapsack_liquidity\<close> and \<open>is_tor_restricted\<close> read it: the four
  fields indexed with \<open>offer[...]\<close> and passed through \<open>int\<close>, and the four read with
  \<open>offer.get\<close>, which may be absent.
\<close>

record offer =
  min_size :: int
  max_size :: int
  base_fee :: int
  fee_rate :: int
  amboss_fee_rate :: "int option"
  account :: "string option"
  allow_parallel :: "bool option"
  conditions :: "cond list option"


section \<open>The offer classifier\<close>

text \<open>The test of one condition (lines 153 to 159 of the source).\<close>

definition cond_matches :: "cond \<Rightarrow> bool" where
  "cond_matches c =
     (condition c = Some ''NODE_SOCKETS'' \<and>
      ((operator c = Some ''NOT_EQUAL_TO'' \<and> upper (dict_get (val c) '''') = ''TOR'') \<or>
       (operator c = Some ''CONTAINS'' \<and> upper (dict_get (val c) '''') = ''CLEARNET'')))"

fun scan_conditions :: "cond list \<Rightarrow> bool" where
  "scan_conditions [] = False"
| "scan_conditions (c # cs) = (if cond_matches c then True else scan_conditions cs)"

definition is_tor_restricted :: "offer \<Rightarrow> bool" where
  "is_tor_restricted off = scan_conditions (dict_get (conditions off) [])"

subsection \<open>The rule as the specification words it\<close>

definition char_lower :: "char \<Rightarrow> char" where
  "char_lower c =
     (let n = (of_char c :: nat) in if 65 \<le> n \<and> n \<le> 90 then char_of (n + 32) else c)"

text \<open>Two strings are equal case-insensitively when they agree after folding to lower case.\<close>

definition ci_equals :: "string \<Rightarrow> string \<Rightarrow> bool" where
  "ci_equals s t = (map char_lower s = map char_lower t)"

definition conditions_of :: "offer \<Rightarrow> cond list" where
  "conditions_of off = (case conditions off of None \<Rightarrow> [] | Some cs \<Rightarrow> cs)"

definition spec_matches :: "cond \<Rightarrow> bool" where
  "spec_matches c =
     (condition c = Some ''NODE_SOCKETS'' \<and>
      ((operator c = Some ''NOT_EQUAL_TO'' \<and> (\<exists>v. val c = Some v \<and> ci_equals v ''TOR'')) \<or>
       (operator c = Some ''CONTAINS'' \<and> (\<exists>v. val c = Some v \<and> ci_equals v ''CLEARNET''))))"

definition spec_restricted :: "offer \<Rightarrow> bool" where
  "spec_restricted off = (\<exists>c \<in> set (conditions_of off). spec_matches c)"

text \<open>Two conditions that differ at most in the letter case of their value.\<close>

definition same_but_value_case :: "cond \<Rightarrow> cond \<Rightarrow> bool" where
  "same_but_value_case c d =
     (condition c = condition d \<and> operator c = operator d \<and> rel_option ci_equals (val c) (val d))"

definition same_offer_but_value_case :: "offer \<Rightarrow> offer \<Rightarrow> bool" where
  "same_offer_but_value_case off off' =
     list_all2 same_but_value_case (conditions_of off) (conditions_of off')"

text \<open>Sample offers.\<close>

definition sample_offer :: "cond list option \<Rightarrow> offer" where
  "sample_offer cs =
     \<lparr>min_size = 100, max_size = 250, base_fee = 10, fee_rate = 2500,
      amboss_fee_rate = Some 500, account = Some ''A'', allow_parallel = None,
      conditions = cs\<rparr>"

definition sample_cond :: "string \<Rightarrow> string \<Rightarrow> string \<Rightarrow> cond" where
  "sample_cond c p v = \<lparr>condition = Some c, operator = Some p, val = Some v\<rparr>"


section \<open>Chunk generation\<close>

text \<open>A chunk: the dictionary \<open>{'cost': ..., 'liquidity': ..., 'account': ...}\<close>.\<close>

record chunk =
  cost :: int
  liquidity :: int
  acct :: string

text \<open>
  The body of the first loop of \<open>knapsack_liquidity\<close> (lines 109 to 123): the chunks
  one offer contributes. The fee is \<open>int(min_size * total_ppm / 1_000_000)\<close>, a true
  division followed by a truncation.
\<close>

definition offer_chunks :: "bool \<Rightarrow> offer \<Rightarrow> py_error + chunk list" where
  "offer_chunks include_amboss_fee off =
     (let amboss = (if include_amboss_fee then dict_get (amboss_fee_rate off) 0 else 0);
          total_ppm = fee_rate off + amboss
      in case py_truediv (min_size off * total_ppm) 1000000 of
           Inl e \<Rightarrow> Inl e
         | Inr fee \<Rightarrow>
             (let fee_sats = py_int fee;
                  c = base_fee off + fee_sats;
                  a = dict_get (account off) ''unknown''
              in case py_floordiv (max_size off) (min_size off) of
                   Inl e \<Rightarrow> Inl e
                 | Inr q \<Rightarrow>
                     (let max_chunks =
                            (if \<not> dict_get (allow_parallel off) False then min q 1 else q)
                      in Inr (replicate (nat max_chunks)
                               \<lparr>cost = c, liquidity = min_size off, acct = a\<rparr>))))"

text \<open>The whole first loop: the chunks of the offers, in the order of the offers.\<close>

fun make_chunks :: "bool \<Rightarrow> offer list \<Rightarrow> py_error + chunk list" where
  "make_chunks include_amboss_fee [] = Inr []"
| "make_chunks include_amboss_fee (off # offs) =
     (case offer_chunks include_amboss_fee off of
        Inl e \<Rightarrow> Inl e
      | Inr cs \<Rightarrow>
          (case make_chunks include_amboss_fee offs of
             Inl e \<Rightarrow> Inl e
           | Inr rest \<Rightarrow> Inr (cs @ rest)))"



text \<open>
  The dictionary \<open>get_offer_details\<close> returns for an offer: the fields its query names
  (lines 43 to 54; the identifier is not read by the functions modelled here) and no
  other key, so \<open>allow_parallel\<close> is absent.
\<close>

definition queried_offer ::
  "int \<Rightarrow> int \<Rightarrow> int \<Rightarrow> int \<Rightarrow> int \<Rightarrow> string \<Rightarrow> cond list \<Rightarrow> offer" where
  "queried_offer bf fr afr mn mx a cs =
     \<lparr>min_size = mn, max_size = mx, base_fee = bf, fee_rate = fr,
      amboss_fee_rate = Some afr, account = Some a, allow_parallel = None,
      conditions = Some cs\<rparr>"

text \<open>Sample offers for the chunk generator.\<close>

definition parallel_offer :: offer where
  "parallel_offer =
     \<lparr>min_size = 100000, max_size = 250000, base_fee = 10, fee_rate = 2500,
      amboss_fee_rate = Some 500, account = Some ''A'', allow_parallel = Some True,
      conditions = Some []\<rparr>"


definition zero_size_offer :: offer where
  "zero_size_offer =
     \<lparr>min_size = 0, max_size = 1000000, base_fee = 10, fee_rate = 2500,
      amboss_fee_rate = Some 500, account = Some ''A'', allow_parallel = Some False,
      conditions = Some []\<rparr>"


section \<open>The knapsack solver\<close>

text \<open>
  The allocation dictionary, account to chunk count, as the list of its items in
  insertion order. \<open>orders_get\<close> is \<open>d.get(k, dflt)\<close> and \<open>orders_set\<close> is
  \<open>d[k] = v\<close>: an existing key keeps its place, a new key goes last.
\<close>

type_synonym orders = "(string \<times> int) list"

fun orders_get :: "orders \<Rightarrow> string \<Rightarrow> int \<Rightarrow> int" where
  "orders_get [] k dflt = dflt"
| "orders_get ((k', v) # kvs) k dflt = (if k' = k then v else orders_get kvs k dflt)"

fun orders_set :: "orders \<Rightarrow> string \<Rightarrow> int \<Rightarrow> orders" where
  "orders_set [] k v = [(k, v)]"
| "orders_set ((k', v') # kvs) k v =
     (if k' = k then (k', v) # kvs else (k', v') # orders_set kvs k v)"

text \<open>A cell of the table \<open>dp\<close>: the best liquidity and the allocation that reaches it.\<close>

type_synonym cell = "int \<times> orders"

text \<open>
  The position a Python list index denotes: a negative index counts from the end, and an
  index outside the list raises \<open>IndexError\<close>.
\<close>

definition py_index :: "'a list \<Rightarrow> int \<Rightarrow> py_error + nat" where
  "py_index xs i =
     (let n = int (length xs)
      in if 0 \<le> i \<and> i < n then Inr (nat i)
         else if - n \<le> i \<and> i < 0 then Inr (nat (n + i))
         else Inl IndexError)"

text \<open>The body of the inner loop (lines 130 to 135) at budget \<open>b\<close>.\<close>

definition relax :: "chunk \<Rightarrow> cell list \<Rightarrow> int \<Rightarrow> py_error + cell list" where
  "relax ch dp b =
     (case py_index dp (b - cost ch) of
        Inl e \<Rightarrow> Inl e
      | Inr j \<Rightarrow>
          (case dp ! j of (prev_liq, prev_orders) \<Rightarrow>
            (let new_liq = prev_liq + liquidity ch
             in case py_index dp b of
                  Inl e \<Rightarrow> Inl e
                | Inr i \<Rightarrow>
                    if fst (dp ! i) < new_liq
                    then Inr (dp[i := (new_liq,
                                orders_set prev_orders (acct ch)
                                  (orders_get prev_orders (acct ch) 0 + 1))])
                    else Inr dp)))"

text \<open>
  \<open>for b in range(budget_sats, chunk['cost'] - 1, -1)\<close>: the loop runs while \<open>b\<close> is
  above \<open>cost - 1\<close>, downwards.
\<close>

function inner_loop :: "chunk \<Rightarrow> int \<Rightarrow> cell list \<Rightarrow> py_error + cell list" where
  "inner_loop ch b dp =
     (if b \<le> cost ch - 1 then Inr dp
      else (case relax ch dp b of
              Inl e \<Rightarrow> Inl e
            | Inr dp' \<Rightarrow> inner_loop ch (b - 1) dp'))"
  by pat_completeness auto
termination
  by (relation "measure (\<lambda>(ch, b, dp). nat (b - cost ch + 1))") auto

declare inner_loop.simps [simp del]

text \<open>\<open>for i in range(n)\<close> over the chunks.\<close>

fun outer_loop :: "int \<Rightarrow> chunk list \<Rightarrow> cell list \<Rightarrow> py_error + cell list" where
  "outer_loop budget_sats [] dp = Inr dp"
| "outer_loop budget_sats (ch # chs) dp =
     (case inner_loop ch budget_sats dp of
        Inl e \<Rightarrow> Inl e
      | Inr dp' \<Rightarrow> outer_loop budget_sats chs dp')"

text \<open>
  \<open>max(dp, key=lambda x: x[0])\<close>: the first cell of greatest liquidity; \<open>ValueError\<close>
  on an empty table.
\<close>

fun py_max_liq :: "cell list \<Rightarrow> py_error + cell" where
  "py_max_liq [] = Inl ValueError"
| "py_max_liq (x # xs) = Inr (fold (\<lambda>y best. if fst best < fst y then y else best) xs x)"

text \<open>
  Lines 137 to 142: for each account of the allocation, the cost of the first chunk of
  that account times the count; an account no chunk has adds nothing.
\<close>

definition total_cost_of :: "chunk list \<Rightarrow> orders \<Rightarrow> int" where
  "total_cost_of chunks seller_orders =
     fold (\<lambda>(a, n) total.
             case find (\<lambda>ch. acct ch = a) chunks of
               None \<Rightarrow> total
             | Some ch \<Rightarrow> total + cost ch * n)
          seller_orders 0"

text \<open>Lines 125 to 143: the solver proper, on the chunks the first loop has built.\<close>

definition knapsack_solve :: "int \<Rightarrow> chunk list \<Rightarrow> py_error + (int \<times> int \<times> orders)" where
  "knapsack_solve budget_sats chunks =
     (case outer_loop budget_sats chunks (replicate (nat (budget_sats + 1)) (0, [])) of
        Inl e \<Rightarrow> Inl e
      | Inr dp \<Rightarrow>
          (case py_max_liq dp of
             Inl e \<Rightarrow> Inl e
           | Inr (max_liq, seller_orders) \<Rightarrow>
               Inr (max_liq, total_cost_of chunks seller_orders, seller_orders)))"

definition knapsack_liquidity ::
  "int \<Rightarrow> offer list \<Rightarrow> bool \<Rightarrow> py_error + (int \<times> int \<times> orders)" where
  "knapsack_liquidity budget_sats offers include_amboss_fee =
     (case make_chunks include_amboss_fee offers of
        Inl e \<Rightarrow> Inl e
      | Inr chunks \<Rightarrow> knapsack_solve budget_sats chunks)"

text \<open>The liquidity of a result, \<open>None\<close> when the call raised.\<close>

definition max_liquidity :: "py_error + (int \<times> int \<times> orders) \<Rightarrow> int option" where
  "max_liquidity r = (case r of Inl e \<Rightarrow> None | Inr (l, c, al) \<Rightarrow> Some l)"


subsection \<open>The table after one chunk, cell by cell\<close>

text \<open>
  What the inner loop leaves in cell \<open>b\<close> when it runs on the table \<open>dp\<close> with a chunk
  of non-negative cost: the loop goes downwards, so it reads cells it has not written yet.
\<close>

definition relaxed_cell :: "chunk \<Rightarrow> cell list \<Rightarrow> nat \<Rightarrow> cell" where
  "relaxed_cell ch dp b =
     (let c = nat (cost ch); prev = dp ! (b - c)
      in if c \<le> b \<and> fst (dp ! b) < fst prev + liquidity ch
         then (fst prev + liquidity ch,
               orders_set (snd prev) (acct ch) (orders_get (snd prev) (acct ch) 0 + 1))
         else dp ! b)"

definition relaxed :: "chunk \<Rightarrow> cell list \<Rightarrow> cell list" where
  "relaxed ch dp = map (relaxed_cell ch dp) [0..<length dp]"

text \<open>The table after all chunks, for a non-negative budget and non-negative costs.\<close>

definition table :: "int \<Rightarrow> chunk list \<Rightarrow> cell list" where
  "table budget chunks = fold relaxed chunks (replicate (nat (budget + 1)) (0, []))"

text \<open>
  The allocation a list of chosen chunks gives rise to: one count added per chunk, the way
  the inner loop adds it.
\<close>

definition orders_of :: "chunk list \<Rightarrow> orders" where
  "orders_of chosen =
     fold (\<lambda>ch al. orders_set al (acct ch) (orders_get al (acct ch) 0 + 1)) chosen []"

text \<open>
  The two halves of what a cell of the table means. A cell at budget \<open>b\<close> is \<open>reached\<close>
  by some of the chunks processed so far, of total cost at most \<open>b\<close>, whose liquidities
  add up to the cell's liquidity and whose accounts make up its allocation; and it
  \<open>dominates\<close> every choice among those chunks of total cost at most \<open>b\<close>.
\<close>

definition reached :: "chunk list \<Rightarrow> nat \<Rightarrow> cell \<Rightarrow> bool" where
  "reached done b cl =
     (\<exists>chosen. mset chosen \<subseteq># mset done \<and> sum_list (map cost chosen) \<le> int b \<and>
        fst cl = sum_list (map liquidity chosen) \<and> snd cl = orders_of chosen)"

definition dominates :: "chunk list \<Rightarrow> nat \<Rightarrow> cell \<Rightarrow> bool" where
  "dominates done b cl =
     (\<forall>S. S \<subseteq># mset done \<and> (\<Sum>ch\<in>#S. cost ch) \<le> int b \<longrightarrow> (\<Sum>ch\<in>#S. liquidity ch) \<le> fst cl)"

text \<open>An offer without any fee: its chunk costs nothing.\<close>

definition free_offer :: offer where
  "free_offer =
     \<lparr>min_size = 1000, max_size = 1000, base_fee = 0, fee_rate = 0,
      amboss_fee_rate = Some 0, account = Some ''F'', allow_parallel = Some False,
      conditions = Some []\<rparr>"

text \<open>Sample chunks: the scenario of the specification, scaled down, and a free chunk.\<close>

definition chunk_A :: chunk where
  "chunk_A = \<lparr>cost = 1, liquidity = 50, acct = ''A''\<rparr>"

definition chunk_B :: chunk where
  "chunk_B = \<lparr>cost = 2, liquidity = 120, acct = ''B''\<rparr>"

definition chunk_free :: chunk where
  "chunk_free = \<lparr>cost = 0, liquidity = 5, acct = ''F''\<rparr>"


section \<open>The curve sampler\<close>

text \<open>
  The sort key of an offer (lines 171 to 180): the cost of one chunk, here with a floor
  division, over \<open>min_size\<close>, a true division. \<open>offer['amboss_fee_rate']\<close> raises
  \<open>KeyError\<close> on an absent key.
\<close>

definition offer_price_per_sat :: "offer \<Rightarrow> py_error + rat" where
  "offer_price_per_sat off =
     (case amboss_fee_rate off of
        None \<Rightarrow> Inl KeyError
      | Some afr \<Rightarrow>
          (let total_fee_rate = fee_rate off + afr;
               c = base_fee off + (min_size off * total_fee_rate) div 1000000
           in py_truediv c (min_size off)))"

text \<open>
  \<open>sorted(offers, key=offer_price_per_sat)\<close>: the keys are computed first, in the order
  of the list, and the first exception ends the call; the sort is stable, as
  \<open>sort_key\<close> is.
\<close>

fun price_keys :: "offer list \<Rightarrow> py_error + (rat \<times> offer) list" where
  "price_keys [] = Inr []"
| "price_keys (off # offs) =
     (case offer_price_per_sat off of
        Inl e \<Rightarrow> Inl e
      | Inr k \<Rightarrow>
          (case price_keys offs of
             Inl e \<Rightarrow> Inl e
           | Inr kos \<Rightarrow> Inr ((k, off) # kos)))"

definition sorted_by_price :: "offer list \<Rightarrow> py_error + offer list" where
  "sorted_by_price offers =
     (case price_keys offers of
        Inl e \<Rightarrow> Inl e
      | Inr kos \<Rightarrow> Inr (map snd (sort_key fst kos)))"

text \<open>
  Lines 213 to 216 and, for one budget of the coarse grid, lines 225 and 228: the solver's
  result on the offers that are not restricted and its result on all offers.
\<close>

definition variant_solutions ::
  "int \<Rightarrow> offer list \<Rightarrow>
   py_error + ((int \<times> int \<times> orders) \<times> (int \<times> int \<times> orders))" where
  "variant_solutions budget_sats offers =
     (let offers_tor = filter (\<lambda>off. \<not> is_tor_restricted off) offers;
          offers_clearnet = offers
      in case sorted_by_price offers_tor of
           Inl e \<Rightarrow> Inl e
         | Inr offers_tor_sorted \<Rightarrow>
             (case sorted_by_price offers_clearnet of
                Inl e \<Rightarrow> Inl e
              | Inr offers_clearnet_sorted \<Rightarrow>
                  (case knapsack_liquidity budget_sats offers_tor_sorted True of
                     Inl e \<Rightarrow> Inl e
                   | Inr tor \<Rightarrow>
                       (case knapsack_liquidity budget_sats offers_clearnet_sorted True of
                          Inl e \<Rightarrow> Inl e
                        | Inr clearnet \<Rightarrow> Inr (tor, clearnet)))))"

text \<open>The chunks of an offer whose chunk generation does not raise.\<close>

definition the_chunks :: "bool \<Rightarrow> offer \<Rightarrow> chunk list" where
  "the_chunks inc off = (case offer_chunks inc off of Inl e \<Rightarrow> [] | Inr cs \<Rightarrow> cs)"

text \<open>Two sample offers, the second one restricted.\<close>

definition tor_ok_offer :: offer where
  "tor_ok_offer =
     \<lparr>min_size = 50, max_size = 50, base_fee = 1, fee_rate = 0,
      amboss_fee_rate = Some 0, account = Some ''A'', allow_parallel = Some False,
      conditions = Some []\<rparr>"

definition clearnet_only_offer :: offer where
  "clearnet_only_offer =
     \<lparr>min_size = 120, max_size = 120, base_fee = 2, fee_rate = 0,
      amboss_fee_rate = Some 0, account = Some ''B'', allow_parallel = Some False,
      conditions = Some [sample_cond ''NODE_SOCKETS'' ''CONTAINS'' ''clearnet'']\<rparr>"


subsection \<open>The fee annotations at the checkpoints\<close>





text \<open>
  \<open>np.where(xs == k)[0]\<close>: the indices at which \<open>xs\<close> holds \<open>k\<close>, in increasing order.
\<close>

definition np_where_eq :: "int list \<Rightarrow> int \<Rightarrow> nat list" where
  "np_where_eq xs k = filter (\<lambda>i. xs ! i = k) [0..<length xs]"








text \<open>
  The grid index of a checkpoint, the liquidity series of a variant, and whether a list
  of annotations holds one for a checkpoint and a variant.
\<close>

definition grid_index :: "int list \<Rightarrow> int \<Rightarrow> nat option" where
  "grid_index coarse key_usd =
     (case np_where_eq coarse key_usd of [] \<Rightarrow> None | i # rest \<Rightarrow> Some i)"





section \<open>Properties of the classifier\<close>

lemma char_lower_upper: "char_lower (char_upper c) = char_lower c"
  unfolding char_lower_def char_upper_def Let_def
  by (auto simp: of_char_of)

lemma char_upper_lower: "char_upper (char_lower c) = char_upper c"
  unfolding char_lower_def char_upper_def Let_def
  by (auto simp: of_char_of)

lemma upper_of_lower: "upper (map char_lower s) = upper s"
  by (simp add: upper_def char_upper_lower)

lemma lower_of_upper: "map char_lower (upper s) = map char_lower s"
  by (simp add: upper_def char_lower_upper)

lemma ci_equals_upper:
  assumes "ci_equals s t"
  shows "upper s = upper t"
proof -
  from assms have "upper (map char_lower s) = upper (map char_lower t)"
    by (simp add: ci_equals_def)
  then show ?thesis by (simp only: upper_of_lower)
qed

lemma upper_TOR: "upper ''TOR'' = ''TOR''"
  by code_simp

lemma upper_CLEARNET: "upper ''CLEARNET'' = ''CLEARNET''"
  by code_simp

lemma upper_eq_TOR: "upper v = ''TOR'' \<longleftrightarrow> ci_equals v ''TOR''"
proof
  assume "upper v = ''TOR''"
  then have "map char_lower (upper v) = map char_lower ''TOR''" by simp
  then show "ci_equals v ''TOR''" by (simp only: lower_of_upper ci_equals_def)
next
  assume "ci_equals v ''TOR''"
  then have "upper v = upper ''TOR''" by (rule ci_equals_upper)
  then show "upper v = ''TOR''" by (simp only: upper_TOR)
qed

lemma upper_eq_CLEARNET: "upper v = ''CLEARNET'' \<longleftrightarrow> ci_equals v ''CLEARNET''"
proof
  assume "upper v = ''CLEARNET''"
  then have "map char_lower (upper v) = map char_lower ''CLEARNET''" by simp
  then show "ci_equals v ''CLEARNET''" by (simp only: lower_of_upper ci_equals_def)
next
  assume "ci_equals v ''CLEARNET''"
  then have "upper v = upper ''CLEARNET''" by (rule ci_equals_upper)
  then show "upper v = ''CLEARNET''" by (simp only: upper_CLEARNET)
qed

lemma upper_empty_ne: "upper '''' \<noteq> ''TOR''" "upper '''' \<noteq> ''CLEARNET''"
  by (simp_all add: upper_def)

lemma cond_matches_spec: "cond_matches c = spec_matches c"
proof (cases "val c")
  case None
  then show ?thesis
    by (simp add: cond_matches_def spec_matches_def dict_get_def upper_empty_ne)
next
  case (Some v)
  then show ?thesis
    by (simp add: cond_matches_def spec_matches_def dict_get_def upper_eq_TOR upper_eq_CLEARNET)
qed

lemma scan_conditions_iff: "scan_conditions cs \<longleftrightarrow> (\<exists>c \<in> set cs. cond_matches c)"
  by (induction cs) auto

lemma dict_get_conditions: "dict_get (conditions off) [] = conditions_of off"
  by (simp add: dict_get_def conditions_of_def)

lemma cond_matches_value_case:
  assumes "same_but_value_case c d"
  shows "cond_matches c = cond_matches d"
proof -
  from assms have v: "rel_option ci_equals (val c) (val d)"
    and c: "condition c = condition d" and p: "operator c = operator d"
    by (simp_all add: same_but_value_case_def)
  from v have "upper (dict_get (val c) '''') = upper (dict_get (val d) '''')"
    by (cases "val c"; cases "val d") (simp_all add: dict_get_def ci_equals_upper)
  with c p show ?thesis by (simp add: cond_matches_def)
qed

lemma scan_conditions_value_case:
  "list_all2 same_but_value_case cs ds \<Longrightarrow> scan_conditions cs = scan_conditions ds"
  by (induction cs ds rule: list_all2_induct) (simp_all add: cond_matches_value_case)

text \<open>
  C6. The classifier returns restricted exactly when some condition of the offer has
  \<open>condition == NODE_SOCKETS\<close> and either the operator \<open>NOT_EQUAL_TO\<close> with a value
  that equals \<open>TOR\<close> case-insensitively, or the operator \<open>CONTAINS\<close> with a value that
  equals \<open>CLEARNET\<close> case-insensitively. An offer none of whose conditions matches, an
  offer without conditions in particular, is not restricted, and two offers whose
  conditions differ only in the letter case of the value fields are classified alike.
\<close>

theorem is_tor_restricted_rule:
  "(is_tor_restricted off \<longleftrightarrow> spec_restricted off) \<and>
   ((\<forall>c \<in> set (conditions_of off). \<not> spec_matches c) \<longrightarrow> \<not> is_tor_restricted off) \<and>
   (conditions_of off = [] \<longrightarrow> \<not> is_tor_restricted off) \<and>
   (same_offer_but_value_case off off' \<longrightarrow> is_tor_restricted off = is_tor_restricted off')"
proof -
  have a: "is_tor_restricted off \<longleftrightarrow> spec_restricted off"
    by (simp add: is_tor_restricted_def spec_restricted_def dict_get_conditions
        scan_conditions_iff cond_matches_spec)
  have b: "(\<forall>c \<in> set (conditions_of off). \<not> spec_matches c) \<longrightarrow> \<not> is_tor_restricted off"
    using a by (simp add: spec_restricted_def)
  have c: "conditions_of off = [] \<longrightarrow> \<not> is_tor_restricted off"
    using a by (simp add: spec_restricted_def)
  have d: "same_offer_but_value_case off off' \<longrightarrow> is_tor_restricted off = is_tor_restricted off'"
    by (simp add: same_offer_but_value_case_def is_tor_restricted_def dict_get_conditions
        scan_conditions_value_case)
  from a b c d show ?thesis by blast
qed

theorem is_tor_restricted_rule_witness:
  "is_tor_restricted (sample_offer (Some [sample_cond ''NODE_SOCKETS'' ''NOT_EQUAL_TO'' ''tor''])) \<and>
   is_tor_restricted (sample_offer (Some [sample_cond ''NODE_SOCKETS'' ''NOT_EQUAL_TO'' ''ToR''])) \<and>
   \<not> is_tor_restricted (sample_offer (Some [])) \<and>
   \<not> is_tor_restricted (sample_offer None) \<and>
   \<not> is_tor_restricted (sample_offer (Some [sample_cond ''NODE_SOCKETS'' ''CONTAINS'' ''tor'']))"
proof -
  let ?a = "sample_offer (Some [sample_cond ''NODE_SOCKETS'' ''NOT_EQUAL_TO'' ''tor''])"
  let ?b = "sample_offer (Some [sample_cond ''NODE_SOCKETS'' ''NOT_EQUAL_TO'' ''ToR''])"
  let ?c = "sample_offer (Some [sample_cond ''NODE_SOCKETS'' ''CONTAINS'' ''tor''])"
  have ci: "ci_equals ''tor'' ''TOR''" "ci_equals ''tor'' ''ToR''"
    "\<not> ci_equals ''tor'' ''CLEARNET''"
    by code_simp+
  have sa: "spec_restricted ?a"
    by (simp add: spec_restricted_def conditions_of_def sample_offer_def sample_cond_def
        spec_matches_def ci)
  have sab: "same_offer_but_value_case ?a ?b"
    by (simp add: same_offer_but_value_case_def conditions_of_def sample_offer_def
        sample_cond_def same_but_value_case_def ci)
  have e1: "conditions_of (sample_offer (Some [])) = []"
    and e2: "conditions_of (sample_offer None) = []"
    by (simp_all add: conditions_of_def sample_offer_def)
  have nc: "\<forall>c \<in> set (conditions_of ?c). \<not> spec_matches c"
    by (simp add: conditions_of_def sample_offer_def sample_cond_def spec_matches_def ci)
  from sa is_tor_restricted_rule [of ?a ?b] have ra: "is_tor_restricted ?a" by blast
  from sab ra is_tor_restricted_rule [of ?a ?b] have rb: "is_tor_restricted ?b" by blast
  from e1 is_tor_restricted_rule [of "sample_offer (Some [])" ?a]
  have r1: "\<not> is_tor_restricted (sample_offer (Some []))" by blast
  from e2 is_tor_restricted_rule [of "sample_offer None" ?a]
  have r2: "\<not> is_tor_restricted (sample_offer None)" by blast
  from nc is_tor_restricted_rule [of ?c ?a] have rc: "\<not> is_tor_restricted ?c" by blast
  from ra rb r1 r2 rc show ?thesis by blast
qed

section \<open>Properties of the true division\<close>









lemma py_truediv_zero: "b \<noteq> 0 \<Longrightarrow> py_truediv 0 b = Inr 0"
  by (simp add: py_truediv_def)

lemma py_truediv_no_zero_division: "b \<noteq> 0 \<Longrightarrow> py_truediv a b \<noteq> Inl ZeroDivisionError"
  by (simp add: py_truediv_def split: prod.splits)

section \<open>Properties of the chunk generator\<close>





lemma zero_min_size_raises:
  "min_size off = 0 \<Longrightarrow> offer_chunks inc off = Inl ZeroDivisionError"
  by (simp add: offer_chunks_def Let_def py_truediv_zero py_floordiv_def)

lemma make_chunks_propagates:
  "off \<in> set offs \<Longrightarrow> offer_chunks inc off = Inl e \<Longrightarrow> \<exists>e'. make_chunks inc offs = Inl e'"
  by (induction offs) (auto split: sum.splits)

lemma nonzero_min_size_divides:
  "min_size off \<noteq> 0 \<Longrightarrow> offer_chunks inc off \<noteq> Inl ZeroDivisionError"
  using py_truediv_no_zero_division
    [of 1000000 "min_size off * (fee_rate off + (if inc then dict_get (amboss_fee_rate off) 0 else 0))"]
  by (auto simp: offer_chunks_def Let_def py_floordiv_def split: sum.splits)

text \<open>
  C2, as amended. For an offer with \<open>min_size == 0\<close> the division
  \<open>max_size // min_size\<close> raises \<open>ZeroDivisionError\<close>: the offer yields no chunk list,
  and chunk generation over any offer list that holds such an offer fails as a whole. The
  division raises for no other offer, so \<open>min_size \<noteq> 0\<close> is the precondition the caller
  has to ensure.
\<close>

theorem zero_min_size_fails:
  "(min_size off = 0 \<longrightarrow> offer_chunks inc off = Inl ZeroDivisionError) \<and>
   (min_size off = 0 \<and> off \<in> set offs \<longrightarrow> (\<exists>e. make_chunks inc offs = Inl e)) \<and>
   (min_size off \<noteq> 0 \<longrightarrow> offer_chunks inc off \<noteq> Inl ZeroDivisionError)"
  using zero_min_size_raises make_chunks_propagates nonzero_min_size_divides by blast

theorem zero_min_size_fails_witness:
  "offer_chunks True zero_size_offer = Inl ZeroDivisionError \<and>
   (\<exists>e. make_chunks True [parallel_offer, zero_size_offer] = Inl e) \<and>
   offer_chunks True parallel_offer \<noteq> Inl ZeroDivisionError"
proof -
  have z: "min_size zero_size_offer = 0" by (simp add: zero_size_offer_def)
  have p: "min_size parallel_offer \<noteq> 0" by (simp add: parallel_offer_def)
  have i: "zero_size_offer \<in> set [parallel_offer, zero_size_offer]" by simp
  from z zero_min_size_fails [of zero_size_offer True "[parallel_offer, zero_size_offer]"]
  have 1: "offer_chunks True zero_size_offer = Inl ZeroDivisionError" by blast
  from z i zero_min_size_fails [of zero_size_offer True "[parallel_offer, zero_size_offer]"]
  have 2: "\<exists>e. make_chunks True [parallel_offer, zero_size_offer] = Inl e" by blast
  from p zero_min_size_fails [of parallel_offer True "[]"]
  have 3: "offer_chunks True parallel_offer \<noteq> Inl ZeroDivisionError" by blast
  from 1 2 3 show ?thesis by blast
qed

text \<open>
  The claim as it stands fails: on an offer with \<open>min_size = 0\<close> chunk generation raises.
\<close>

theorem zero_min_size_counterexample:
  "min_size zero_size_offer = 0 \<and>
   make_chunks True [zero_size_offer] = Inl ZeroDivisionError"
  by code_simp

lemma non_parallel_one:
  "allow_parallel off = None \<Longrightarrow> offer_chunks inc off = Inr cs \<Longrightarrow> length cs \<le> 1"
  by (auto simp: offer_chunks_def Let_def py_floordiv_def dict_get_def
      split: sum.splits if_splits)

lemma make_chunks_length:
  "\<forall>off \<in> set offs. allow_parallel off = None \<Longrightarrow> make_chunks inc offs = Inr cs \<Longrightarrow>
   length cs \<le> length offs"
proof (induction offs arbitrary: cs)
  case Nil
  then show ?case by simp
next
  case (Cons off offs)
  from Cons.prems(2) obtain c1 c2 where c: "offer_chunks inc off = Inr c1"
    "make_chunks inc offs = Inr c2" "cs = c1 @ c2"
    by (auto split: sum.splits)
  have "length c1 \<le> 1" using non_parallel_one [OF _ c(1)] Cons.prems(1) by simp
  moreover have "length c2 \<le> length offs" using Cons.IH [OF _ c(2)] Cons.prems(1) by simp
  ultimately show ?case using c(3) by simp
qed

text \<open>
  C10. An offer record without the \<open>allow_parallel\<close> key is treated as non-parallel:
  it contributes at most one chunk. The dictionaries \<open>get_offer_details\<close> returns never
  hold the key, since its query does not request the field, so each of them contributes at
  most one chunk, and a solve over such offers has at most as many chunks as offers.
\<close>

theorem absent_allow_parallel_one_chunk:
  "(allow_parallel off = None \<longrightarrow> (\<forall>cs. offer_chunks inc off = Inr cs \<longrightarrow> length cs \<le> 1)) \<and>
   allow_parallel (queried_offer bf fr afr mn mx a conds) = None \<and>
   (\<forall>cs. offer_chunks inc (queried_offer bf fr afr mn mx a conds) = Inr cs \<longrightarrow> length cs \<le> 1) \<and>
   ((\<forall>x \<in> set offs. allow_parallel x = None) \<longrightarrow>
      (\<forall>cs. make_chunks inc offs = Inr cs \<longrightarrow> length cs \<le> length offs))"
proof -
  have q: "allow_parallel (queried_offer bf fr afr mn mx a conds) = None"
    by (simp add: queried_offer_def)
  show ?thesis using q non_parallel_one make_chunks_length by blast
qed

theorem absent_allow_parallel_one_chunk_witness:
  "offer_chunks True (queried_offer 10 2500 500 100000 250000 ''A'' []) =
     Inr [\<lparr>cost = 310, liquidity = 100000, acct = ''A''\<rparr>] \<and>
   length [\<lparr>cost = 310, liquidity = 100000, acct = ''A''\<rparr>] \<le> (1::nat) \<and>
   allow_parallel (queried_offer 10 2500 500 100000 250000 ''A'' []) = None"
proof -
  let ?q = "queried_offer 10 2500 500 100000 250000 ''A'' []"
  let ?c = "\<lparr>cost = 310, liquidity = 100000, acct = ''A''\<rparr>"
  have e: "offer_chunks True ?q = Inr [?c]" by code_simp
  from e absent_allow_parallel_one_chunk [of ?q True 10 2500 500 100000 250000 "''A''" "[]" "[]"]
  have "length [?c] \<le> 1" by blast
  moreover have "allow_parallel ?q = None"
    using absent_allow_parallel_one_chunk [of ?q True 10 2500 500 100000 250000 "''A''" "[]" "[]"]
    by blast
  ultimately show ?thesis using e by blast
qed


section \<open>Properties of the solver\<close>

lemma length_relaxed [simp]: "length (relaxed ch dp) = length dp"
  by (simp add: relaxed_def)

lemma nth_relaxed [simp]: "i < length dp \<Longrightarrow> relaxed ch dp ! i = relaxed_cell ch dp i"
  by (simp add: relaxed_def)

lemma relax_step:
  assumes c: "0 \<le> cost ch" and b: "cost ch \<le> b" "b < int (length cur)"
    and len: "length cur = length dp"
    and lo: "\<forall>i. int i \<le> b \<longrightarrow> i < length dp \<longrightarrow> cur ! i = dp ! i"
  shows "relax ch cur b = Inr (cur[nat b := relaxed_cell ch dp (nat b)])"
proof -
  have i1: "py_index cur (b - cost ch) = Inr (nat b - nat (cost ch))"
    using c b by (simp add: py_index_def nat_diff_distrib)
  have i2: "py_index cur b = Inr (nat b)"
    using c b by (simp add: py_index_def)
  have n1: "cur ! (nat b - nat (cost ch)) = dp ! (nat b - nat (cost ch))"
    using lo c b len by simp
  have n2: "cur ! nat b = dp ! nat b" using lo c b len by simp
  have le: "nat (cost ch) \<le> nat b" using c b by simp
  obtain pl po where pp: "dp ! (nat b - nat (cost ch)) = (pl, po)" by fastforce
  show ?thesis
  proof (cases "fst (dp ! nat b) < pl + liquidity ch")
    case True
    then show ?thesis
      by (simp add: relax_def i1 i2 n1 n2 relaxed_cell_def Let_def le pp)
  next
    case False
    then have "relaxed_cell ch dp (nat b) = cur ! nat b"
      by (simp add: relaxed_cell_def Let_def n2 pp)
    then have "cur[nat b := relaxed_cell ch dp (nat b)] = cur" by simp
    then show ?thesis using False
      by (simp add: relax_def i1 i2 n1 n2 Let_def pp)
  qed
qed

lemma inner_loop_relaxed_aux:
  assumes "0 \<le> cost ch" and "b < int (length dp)" and "length cur = length dp"
    and "\<forall>i. int i \<le> b \<longrightarrow> i < length dp \<longrightarrow> cur ! i = dp ! i"
    and "\<forall>i. b < int i \<longrightarrow> i < length dp \<longrightarrow> cur ! i = relaxed_cell ch dp i"
  shows "inner_loop ch b cur = Inr (relaxed ch dp)"
  using assms
proof (induction ch b cur rule: inner_loop.induct)
  case (1 ch b cur)
  show ?case
  proof (cases "b \<le> cost ch - 1")
    case True
    have "cur = relaxed ch dp"
    proof (rule nth_equalityI)
      show "length cur = length (relaxed ch dp)" using "1.prems"(3) by simp
    next
      fix i assume i: "i < length cur"
      show "cur ! i = relaxed ch dp ! i"
      proof (cases "int i \<le> b")
        case le: True
        then have "\<not> nat (cost ch) \<le> i" using True "1.prems"(1) by linarith
        then have "relaxed_cell ch dp i = dp ! i" by (simp add: relaxed_cell_def Let_def)
        then show ?thesis using le i "1.prems"(3,4) by simp
      next
        case False
        then show ?thesis using i "1.prems"(3,5) by simp
      qed
    qed
    then show ?thesis using True by (simp add: inner_loop.simps)
  next
    case False
    then have cb: "cost ch \<le> b" by simp
    have bl: "b < int (length cur)" using "1.prems"(2,3) by simp
    let ?cur' = "cur[nat b := relaxed_cell ch dp (nat b)]"
    have st: "relax ch cur b = Inr ?cur'"
      using "1.prems"(1) cb bl "1.prems"(3,4) by (rule relax_step)
    have b0: "0 \<le> b" using cb "1.prems"(1) by simp
    have "inner_loop ch (b - 1) ?cur' = Inr (relaxed ch dp)"
    proof (rule "1.IH" [OF False st])
      show "0 \<le> cost ch" by fact
      show "b - 1 < int (length dp)" using "1.prems"(2) by simp
      show "length ?cur' = length dp" using "1.prems"(3) by simp
      show "\<forall>i. int i \<le> b - 1 \<longrightarrow> i < length dp \<longrightarrow> ?cur' ! i = dp ! i"
        using "1.prems"(4) b0 by (auto simp: nth_list_update)
      show "\<forall>i. b - 1 < int i \<longrightarrow> i < length dp \<longrightarrow> ?cur' ! i = relaxed_cell ch dp i"
      proof (intro allI impI)
        fix i assume i: "b - 1 < int i" "i < length dp"
        show "?cur' ! i = relaxed_cell ch dp i"
        proof (cases "i = nat b")
          case True
          then show ?thesis using i "1.prems"(3) by simp
        next
          case False
          then have "b < int i" using i b0 by linarith
          then show ?thesis using False i "1.prems"(5) by simp
        qed
      qed
    qed
    then show ?thesis using False st by (simp add: inner_loop.simps)
  qed
qed

lemma inner_loop_relaxed:
  assumes "0 \<le> cost ch" and "length dp = nat (budget + 1)" and "- 1 \<le> budget"
  shows "inner_loop ch budget dp = Inr (relaxed ch dp)"
  using assms by (intro inner_loop_relaxed_aux) auto

lemma outer_loop_fold:
  assumes "\<forall>ch \<in> set chunks. 0 \<le> cost ch" and "length dp = nat (budget + 1)" and "- 1 \<le> budget"
  shows "outer_loop budget chunks dp = Inr (fold relaxed chunks dp)"
  using assms
proof (induction chunks arbitrary: dp)
  case Nil
  then show ?case by simp
next
  case (Cons ch chunks)
  have "inner_loop ch budget dp = Inr (relaxed ch dp)"
    using Cons.prems by (intro inner_loop_relaxed) auto
  moreover have "outer_loop budget chunks (relaxed ch dp) = Inr (fold relaxed chunks (relaxed ch dp))"
    using Cons.prems by (intro Cons.IH) auto
  ultimately show ?case by simp
qed

lemma length_fold_relaxed [simp]: "length (fold relaxed chunks dp) = length dp"
  by (induction chunks arbitrary: dp) simp_all

lemma length_table [simp]: "length (table budget chunks) = nat (budget + 1)"
  by (simp add: table_def)

lemma fold_max_in: "fold (\<lambda>y best. if fst best < fst y then y else best) xs x \<in> set (x # xs)"
  by (induction xs arbitrary: x) (auto split: if_splits)

lemma fold_max_ge_init:
  "fst x \<le> fst (fold (\<lambda>y best. if fst best < fst y then y else best) xs (x :: cell))"
proof (induction xs arbitrary: x)
  case Nil
  then show ?case by simp
next
  case (Cons y ys)
  show ?case
  proof (cases "fst x < fst y")
    case True
    then show ?thesis using Cons.IH [of y] by simp
  next
    case False
    then show ?thesis using Cons.IH [of x] by simp
  qed
qed

lemma fold_max_ge:
  "y \<in> set xs \<Longrightarrow> fst y \<le> fst (fold (\<lambda>y best. if fst best < fst y then y else best) xs (x :: cell))"
proof (induction xs arbitrary: x)
  case Nil
  then show ?case by simp
next
  case (Cons z zs)
  let ?x' = "if fst x < fst z then z else x"
  show ?case
  proof (cases "y = z")
    case True
    have "fst z \<le> fst ?x'" by simp
    also have "\<dots> \<le> fst (fold (\<lambda>y best. if fst best < fst y then y else best) zs ?x')"
      by (rule fold_max_ge_init)
    finally show ?thesis using True by simp
  next
    case False
    then have "y \<in> set zs" using Cons.prems by simp
    then show ?thesis using Cons.IH [of ?x'] by simp
  qed
qed

lemma py_max_liq_ok:
  assumes "dp \<noteq> []"
  shows "\<exists>r. py_max_liq dp = Inr r \<and> r \<in> set dp \<and> (\<forall>y \<in> set dp. fst y \<le> fst r)"
proof -
  from assms obtain x xs where dp: "dp = x # xs" by (cases dp) auto
  let ?r = "fold (\<lambda>y best. if fst best < fst y then y else best) xs x"
  have "?r \<in> set dp" unfolding dp by (rule fold_max_in)
  moreover have "\<forall>y \<in> set dp. fst y \<le> fst ?r"
    unfolding dp using fold_max_ge [of _ xs x] fold_max_ge_init [of x xs] by auto
  ultimately show ?thesis by (auto simp: dp)
qed

lemma knapsack_solve_table:
  assumes "0 \<le> budget" and "\<forall>ch \<in> set chunks. 0 \<le> cost ch"
  shows "\<exists>r. py_max_liq (table budget chunks) = Inr r \<and> r \<in> set (table budget chunks) \<and>
             (\<forall>y \<in> set (table budget chunks). fst y \<le> fst r) \<and>
             knapsack_solve budget chunks = Inr (fst r, total_cost_of chunks (snd r), snd r)"
proof -
  have ol: "outer_loop budget chunks (replicate (nat (budget + 1)) (0, [])) = Inr (table budget chunks)"
    unfolding table_def using assms by (intro outer_loop_fold) auto
  have "table budget chunks \<noteq> []" using assms(1) by (auto simp flip: length_0_conv)
  from py_max_liq_ok [OF this] obtain r where
    r: "py_max_liq (table budget chunks) = Inr r" "r \<in> set (table budget chunks)"
       "\<forall>y \<in> set (table budget chunks). fst y \<le> fst r" by blast
  have "knapsack_solve budget chunks = Inr (fst r, total_cost_of chunks (snd r), snd r)"
    by (simp add: knapsack_solve_def ol r(1) split: prod.splits)
  with r show ?thesis by blast
qed

lemma relaxed_cell_take:
  "b < n \<Longrightarrow> n \<le> length dp \<Longrightarrow> relaxed_cell ch (take n dp) b = relaxed_cell ch dp b"
  by (simp add: relaxed_cell_def Let_def)

lemma take_relaxed: "n \<le> length dp \<Longrightarrow> take n (relaxed ch dp) = relaxed ch (take n dp)"
  by (rule nth_equalityI) (simp_all add: relaxed_cell_take)

lemma take_fold_relaxed:
  "n \<le> length dp \<Longrightarrow> take n (fold relaxed chunks dp) = fold relaxed chunks (take n dp)"
  by (induction chunks arbitrary: dp) (simp_all add: take_relaxed)

lemma table_prefix:
  assumes "0 \<le> b1" "b1 \<le> b2"
  shows "table b1 chunks = take (nat (b1 + 1)) (table b2 chunks)"
proof -
  have "take (nat (b1 + 1)) (replicate (nat (b2 + 1)) (0, [])) =
        (replicate (nat (b1 + 1)) (0::int, [] :: orders))"
    using assms by (simp add: min_def)
  then show ?thesis unfolding table_def using assms by (simp add: take_fold_relaxed)
qed

lemma solve_monotone:
  assumes "0 \<le> b1" "b1 \<le> b2" "\<forall>ch \<in> set chunks. 0 \<le> cost ch"
  shows "\<exists>l1 c1 a1 l2 c2 a2. knapsack_solve b1 chunks = Inr (l1, c1, a1) \<and>
           knapsack_solve b2 chunks = Inr (l2, c2, a2) \<and> l1 \<le> l2"
proof -
  from knapsack_solve_table [OF assms(1,3)] obtain r1 where
    r1: "r1 \<in> set (table b1 chunks)"
        "knapsack_solve b1 chunks = Inr (fst r1, total_cost_of chunks (snd r1), snd r1)" by blast
  have "0 \<le> b2" using assms by simp
  from knapsack_solve_table [OF this assms(3)] obtain r2 where
    r2: "\<forall>y \<in> set (table b2 chunks). fst y \<le> fst r2"
        "knapsack_solve b2 chunks = Inr (fst r2, total_cost_of chunks (snd r2), snd r2)" by blast
  have "r1 \<in> set (table b2 chunks)"
    using r1(1) table_prefix [OF assms(1,2), of chunks] by (auto dest: in_set_takeD)
  then have "fst r1 \<le> fst r2" using r2(1) by blast
  with r1(2) r2(2) show ?thesis by blast
qed

lemma zero_budget:
  assumes "\<forall>ch \<in> set chunks. 0 < cost ch"
  shows "knapsack_solve 0 chunks = Inr (0, 0, [])"
proof -
  have st: "0 < cost ch \<Longrightarrow> relaxed ch [(0, [])] = [(0, [])]" for ch
    by (simp add: relaxed_def relaxed_cell_def Let_def)
  have "fold relaxed chunks [(0, [])] = [(0, [])]"
    using assms by (induction chunks) (simp_all add: st)
  then have t: "table 0 chunks = [(0, [])]" by (simp add: table_def)
  have "\<forall>ch \<in> set chunks. 0 \<le> cost ch" using assms by auto
  from knapsack_solve_table [OF _ this, of 0] show ?thesis
    by (auto simp: t total_cost_of_def)
qed

lemma orders_of_Nil: "orders_of [] = []"
  by (simp add: orders_of_def)

lemma orders_of_snoc:
  "orders_of (chosen @ [ch]) =
     orders_set (orders_of chosen) (acct ch) (orders_get (orders_of chosen) (acct ch) 0 + 1)"
  by (simp add: orders_of_def)

lemma reached_mono: "reached done b cl \<Longrightarrow> reached (done @ [ch]) b cl"
  unfolding reached_def
  by (metis mset_append mset_subset_eq_add_left subset_mset.order_trans)

lemma reached_step:
  assumes c: "0 \<le> cost ch" and inv: "\<forall>b < length dp. reached done b (dp ! b)"
    and b: "b < length dp"
  shows "reached (done @ [ch]) b (relaxed_cell ch dp b)"
proof (cases "nat (cost ch) \<le> b \<and>
    fst (dp ! b) < fst (dp ! (b - nat (cost ch))) + liquidity ch")
  case True
  let ?p = "dp ! (b - nat (cost ch))"
  have "reached done (b - nat (cost ch)) ?p" using inv b by simp
  then obtain chosen where ch: "mset chosen \<subseteq># mset done"
    "sum_list (map cost chosen) \<le> int (b - nat (cost ch))"
    "fst ?p = sum_list (map liquidity chosen)" "snd ?p = orders_of chosen"
    unfolding reached_def by blast
  have rc: "relaxed_cell ch dp b =
      (fst ?p + liquidity ch,
       orders_set (snd ?p) (acct ch) (orders_get (snd ?p) (acct ch) 0 + 1))"
    using True by (simp add: relaxed_cell_def Let_def)
  have 1: "mset (chosen @ [ch]) \<subseteq># mset (done @ [ch])" using ch(1) by simp
  have 2: "sum_list (map cost (chosen @ [ch])) \<le> int b" using ch(2) True c by simp
  have 3: "fst (relaxed_cell ch dp b) = sum_list (map liquidity (chosen @ [ch]))"
    using ch(3) by (simp add: rc)
  have 4: "snd (relaxed_cell ch dp b) = orders_of (chosen @ [ch])"
    using ch(4) by (simp add: rc orders_of_snoc)
  from 1 2 3 4 show ?thesis unfolding reached_def by blast
next
  case False
  then have "relaxed_cell ch dp b = dp ! b" by (auto simp: relaxed_cell_def Let_def)
  then show ?thesis using inv b reached_mono by simp
qed

lemma relaxed_cell_ge_old: "fst (dp ! b) \<le> fst (relaxed_cell ch dp b)"
  by (simp add: relaxed_cell_def Let_def)

lemma relaxed_cell_ge_new:
  "nat (cost ch) \<le> b \<Longrightarrow> fst (dp ! (b - nat (cost ch))) + liquidity ch \<le> fst (relaxed_cell ch dp b)"
  by (simp add: relaxed_cell_def Let_def)

lemma sum_mset_cost_nonneg: "\<forall>x \<in># S. 0 \<le> cost x \<Longrightarrow> 0 \<le> (\<Sum>x\<in>#S. cost x)"
  by (induction S) auto

lemma sum_cost_nonneg:
  assumes "S \<subseteq># mset done" and "\<forall>x \<in> set done. 0 \<le> cost x"
  shows "0 \<le> (\<Sum>x\<in>#S. cost x)"
proof (rule sum_mset_cost_nonneg, rule ballI)
  fix x assume "x \<in># S"
  then have "x \<in> set done" using assms(1) by (metis mset_subset_eqD set_mset_mset)
  then show "0 \<le> cost x" using assms(2) by simp
qed

lemma dominates_step:
  assumes c: "0 \<le> cost ch" and dn: "\<forall>x \<in> set done. 0 \<le> cost x"
    and inv: "\<forall>b < length dp. dominates done b (dp ! b)"
    and b: "b < length dp"
  shows "dominates (done @ [ch]) b (relaxed_cell ch dp b)"
  unfolding dominates_def
proof (intro allI impI)
  fix S assume S: "S \<subseteq># mset (done @ [ch]) \<and> (\<Sum>x\<in>#S. cost x) \<le> int b"
  show "(\<Sum>x\<in>#S. liquidity x) \<le> fst (relaxed_cell ch dp b)"
  proof (cases "S \<subseteq># mset done")
    case True
    then have "(\<Sum>x\<in>#S. liquidity x) \<le> fst (dp ! b)"
      using inv b S unfolding dominates_def by blast
    then show ?thesis using relaxed_cell_ge_old [of dp b ch] by linarith
  next
    case False
    define S' where "S' = S - {#ch#}"
    have S'sub: "S' \<subseteq># mset done"
      using S by (simp add: S'_def subset_eq_diff_conv)
    have "ch \<in># S"
    proof (rule ccontr)
      assume "ch \<notin># S"
      then have "S' = S" by (simp add: S'_def)
      with S'sub False show False by simp
    qed
    then have SS: "S = S' + {#ch#}" by (simp add: S'_def)
    have nn: "0 \<le> (\<Sum>x\<in>#S'. cost x)" using S'sub dn by (rule sum_cost_nonneg)
    have cs: "(\<Sum>x\<in>#S. cost x) = (\<Sum>x\<in>#S'. cost x) + cost ch" by (simp add: SS)
    have cb: "nat (cost ch) \<le> b" using cs nn S c by linarith
    have "(\<Sum>x\<in>#S'. cost x) \<le> int (b - nat (cost ch))" using cs S cb c by simp
    then have "(\<Sum>x\<in>#S'. liquidity x) \<le> fst (dp ! (b - nat (cost ch)))"
      using inv b S'sub unfolding dominates_def
      by (meson diff_le_self le_less_trans)
    moreover have "(\<Sum>x\<in>#S. liquidity x) = (\<Sum>x\<in>#S'. liquidity x) + liquidity ch"
      by (simp add: SS)
    ultimately show ?thesis using relaxed_cell_ge_new [OF cb, of dp] by linarith
  qed
qed

lemma table_snoc: "table budget (chunks @ [ch]) = relaxed ch (table budget chunks)"
  by (simp add: table_def)

lemma table_reached:
  assumes "\<forall>ch \<in> set chunks. 0 \<le> cost ch"
  shows "\<forall>b < length (table budget chunks). reached chunks b (table budget chunks ! b)"
  using assms
proof (induction chunks rule: rev_induct)
  case Nil
  show ?case by (simp add: table_def reached_def orders_of_Nil)
next
  case (snoc ch chunks)
  have inv: "\<forall>b < length (table budget chunks). reached chunks b (table budget chunks ! b)"
    using snoc by simp
  have c: "0 \<le> cost ch" using snoc.prems by simp
  show ?case
    using reached_step [OF c inv] by (simp add: table_snoc)
qed

lemma table_dominates:
  assumes "\<forall>ch \<in> set chunks. 0 \<le> cost ch"
  shows "\<forall>b < length (table budget chunks). dominates chunks b (table budget chunks ! b)"
  using assms
proof (induction chunks rule: rev_induct)
  case Nil
  show ?case by (simp add: table_def dominates_def)
next
  case (snoc ch chunks)
  have inv: "\<forall>b < length (table budget chunks). dominates chunks b (table budget chunks ! b)"
    using snoc by simp
  have c: "0 \<le> cost ch" and dn: "\<forall>x \<in> set chunks. 0 \<le> cost x" using snoc.prems by simp_all
  show ?case
    using dominates_step [OF c dn inv] by (simp add: table_snoc)
qed

text \<open>
  C1, as amended. For every chunk set whose chunks all have a positive cost, the solver
  invoked with budget 0 returns liquidity 0, total cost 0 and the empty allocation.
\<close>

theorem zero_budget_law:
  assumes "\<forall>ch \<in> set chunks. 0 < cost ch"
  shows "knapsack_solve 0 chunks = Inr (0, 0, [])"
  using assms by (rule zero_budget)

theorem zero_budget_law_witness:
  "knapsack_solve 0 [chunk_A, chunk_B] = Inr (0, 0, [])"
proof -
  have "\<forall>ch \<in> set [chunk_A, chunk_B]. 0 < cost ch"
    by (simp add: chunk_A_def chunk_B_def)
  then show ?thesis by (rule zero_budget_law)
qed

text \<open>
  The claim as it stands fails for a chunk of cost 0: at budget 0 the loop visits
  \<open>b = 0\<close>, and the chunk is taken. An offer without fees yields such a chunk.
\<close>

theorem zero_budget_free_chunk_counterexample:
  "cost chunk_free = 0 \<and>
   knapsack_solve 0 [chunk_free] = Inr (5, 0, [(''F'', 1)]) \<and>
   knapsack_liquidity 0 [free_offer] True = Inr (1000, 0, [(''F'', 1)])"
  by code_simp

text \<open>
  C4. For a fixed chunk set (costs non-negative, as the data model has them) and
  non-negative budgets \<open>b1 \<le> b2\<close>, the solver returns at both budgets, and the
  liquidity at \<open>b1\<close> is at most the liquidity at \<open>b2\<close>.
\<close>

theorem budget_monotone:
  assumes "0 \<le> b1" and "b1 \<le> b2" and "\<forall>ch \<in> set chunks. 0 \<le> cost ch"
  shows "\<exists>l1 l2. max_liquidity (knapsack_solve b1 chunks) = Some l1 \<and>
                max_liquidity (knapsack_solve b2 chunks) = Some l2 \<and> l1 \<le> l2"
proof -
  from solve_monotone [OF assms] obtain l1 c1 a1 l2 c2 a2 where
    "knapsack_solve b1 chunks = Inr (l1, c1, a1)"
    "knapsack_solve b2 chunks = Inr (l2, c2, a2)" "l1 \<le> l2" by blast
  then show ?thesis by (simp add: max_liquidity_def)
qed

theorem budget_monotone_witness:
  "max_liquidity (knapsack_solve 1 [chunk_A, chunk_B]) = Some 50 \<and>
   max_liquidity (knapsack_solve 2 [chunk_A, chunk_B]) = Some 120 \<and>
   (50 :: int) \<le> 120"
proof -
  have c: "\<forall>ch \<in> set [chunk_A, chunk_B]. 0 \<le> cost ch"
    by (simp add: chunk_A_def chunk_B_def)
  have e1: "max_liquidity (knapsack_solve 1 [chunk_A, chunk_B]) = Some 50" by code_simp
  have e2: "max_liquidity (knapsack_solve 2 [chunk_A, chunk_B]) = Some 120" by code_simp
  from budget_monotone [of 1 2 "[chunk_A, chunk_B]"] c obtain l1 l2 where
    "max_liquidity (knapsack_solve 1 [chunk_A, chunk_B]) = Some l1"
    "max_liquidity (knapsack_solve 2 [chunk_A, chunk_B]) = Some l2" "l1 \<le> l2"
    by auto
  with e1 e2 show ?thesis by simp
qed

lemma orders_get_set:
  "orders_get (orders_set al k v) a d = (if a = k then v else orders_get al a d)"
  by (induction al) auto

lemma orders_set_known:
  "k \<in> fst ` set al \<Longrightarrow> map fst (orders_set al k v) = map fst al"
  by (induction al) force+

lemma orders_set_new:
  "k \<notin> fst ` set al \<Longrightarrow> map fst (orders_set al k v) = map fst al @ [k]"
  by (induction al) force+

lemma keys_orders_set: "fst ` set (orders_set al k v) = insert k (fst ` set al)"
proof (cases "k \<in> fst ` set al")
  case True
  then have "map fst (orders_set al k v) = map fst al" by (rule orders_set_known)
  then have "set (map fst (orders_set al k v)) = set (map fst al)" by (rule arg_cong)
  then show ?thesis using True by auto
next
  case False
  then have "map fst (orders_set al k v) = map fst al @ [k]" by (rule orders_set_new)
  then have "set (map fst (orders_set al k v)) = set (map fst al @ [k])" by (rule arg_cong)
  then show ?thesis by auto
qed

lemma keys_orders_of: "fst ` set (orders_of chosen) = acct ` set chosen"
  by (induction chosen rule: rev_induct) (auto simp: orders_of_snoc keys_orders_set orders_of_Nil)

lemma orders_get_orders_of:
  "orders_get (orders_of chosen) a 0 = int (length (filter (\<lambda>ch. acct ch = a) chosen))"
  by (induction chosen rule: rev_induct) (auto simp: orders_of_snoc orders_get_set orders_of_Nil)

lemma sum_orders_set:
  "(\<Sum>(a, n)\<leftarrow>orders_set al k (orders_get al k 0 + 1). n * f a) =
   (\<Sum>(a, n)\<leftarrow>al. n * f a) + (f k :: int)"
  by (induction al) (auto simp: algebra_simps)

lemma sum_orders_of:
  "(\<Sum>(a, n)\<leftarrow>orders_of chosen. n * f a) = (\<Sum>ch\<leftarrow>chosen. (f (acct ch) :: int))"
  by (induction chosen rule: rev_induct) (simp_all add: orders_of_snoc sum_orders_set orders_of_Nil)

lemma total_cost_fold:
  assumes "\<forall>ch \<in> set chunks. f (acct ch) = cost ch"
    and "fst ` set al \<subseteq> acct ` set chunks"
  shows "fold (\<lambda>(a, n) total.
             case find (\<lambda>ch. acct ch = a) chunks of
               None \<Rightarrow> total
             | Some ch \<Rightarrow> total + cost ch * n) al t = t + (\<Sum>(a, n)\<leftarrow>al. n * f a)"
  using assms(2)
proof (induction al arbitrary: t)
  case Nil
  then show ?case by simp
next
  case (Cons x al)
  obtain a n where x: "x = (a, n)" by (cases x)
  from Cons.prems have "a \<in> acct ` set chunks" by (simp add: x)
  then have "find (\<lambda>ch. acct ch = a) chunks \<noteq> None" by (auto simp: find_None_iff)
  then obtain ch where f: "find (\<lambda>ch. acct ch = a) chunks = Some ch" by blast
  then have "ch \<in> set chunks \<and> acct ch = a"
    by (auto simp: find_Some_iff)
  then have "cost ch = f a" using assms(1) by auto
  moreover have "fst ` set al \<subseteq> acct ` set chunks" using Cons.prems by simp
  ultimately show ?case using Cons.IH [of "t + cost ch * n"] f
    by (simp add: x mult.commute)
qed

lemma total_cost_of_sum:
  assumes "\<forall>ch \<in> set chunks. f (acct ch) = cost ch"
    and "fst ` set al \<subseteq> acct ` set chunks"
  shows "total_cost_of chunks al = (\<Sum>(a, n)\<leftarrow>al. n * f a)"
  unfolding total_cost_of_def using total_cost_fold [OF assms, of 0] by simp

lemma sum_list_cost_uniform:
  assumes "\<forall>ch \<in> set chunks. f (acct ch) = cost ch" and "mset chosen \<subseteq># mset chunks"
  shows "(\<Sum>ch\<leftarrow>chosen. f (acct ch)) = sum_list (map cost chosen)"
proof -
  have "set chosen \<subseteq> set chunks" using assms(2) by (metis set_mset_mono set_mset_mset)
  then have "map (\<lambda>ch. f (acct ch)) chosen = map cost chosen" using assms(1) by auto
  then show ?thesis by (rule arg_cong)
qed

lemma solve_reached:
  assumes b: "0 \<le> budget" and c: "\<forall>ch \<in> set chunks. 0 \<le> cost ch"
  shows "\<exists>chosen. mset chosen \<subseteq># mset chunks \<and> sum_list (map cost chosen) \<le> budget \<and>
           knapsack_solve budget chunks =
             Inr (sum_list (map liquidity chosen), total_cost_of chunks (orders_of chosen),
                  orders_of chosen)"
proof -
  from knapsack_solve_table [OF b c] obtain r where
    r: "r \<in> set (table budget chunks)"
       "knapsack_solve budget chunks = Inr (fst r, total_cost_of chunks (snd r), snd r)" by blast
  from r(1) obtain i where i: "i < length (table budget chunks)" "table budget chunks ! i = r"
    unfolding in_set_conv_nth by blast
  have "reached chunks i (table budget chunks ! i)"
    by (rule table_reached [OF c, of budget, rule_format, OF i(1)])
  then have "reached chunks i r" by (simp only: i(2))
  then obtain chosen where ch: "mset chosen \<subseteq># mset chunks"
    "sum_list (map cost chosen) \<le> int i" "fst r = sum_list (map liquidity chosen)"
    "snd r = orders_of chosen"
    unfolding reached_def by blast
  have "int i \<le> budget" using i(1) b by simp
  then have le: "sum_list (map cost chosen) \<le> budget" using ch(2) by linarith
  have eq: "knapsack_solve budget chunks =
      Inr (sum_list (map liquidity chosen), total_cost_of chunks (orders_of chosen),
           orders_of chosen)"
    by (simp only: r(2) ch(3,4))
  show ?thesis
    by (rule exI [of _ chosen]) (intro conjI ch(1) le eq)
qed

lemma uniform_cost_function:
  assumes "\<forall>ch \<in> set chunks. \<forall>ch' \<in> set chunks. acct ch = acct ch' \<longrightarrow> cost ch = cost ch'"
  shows "\<exists>f. \<forall>ch \<in> set chunks. f (acct ch) = cost ch"
proof -
  define rep where "rep a = (SOME x. x \<in> set chunks \<and> acct x = a)" for a
  have "cost (rep (acct ch)) = cost ch" if "ch \<in> set chunks" for ch
  proof -
    have "\<exists>x. x \<in> set chunks \<and> acct x = acct ch" using that by blast
    then have "rep (acct ch) \<in> set chunks \<and> acct (rep (acct ch)) = acct ch"
      unfolding rep_def by (rule someI_ex)
    then have r1: "rep (acct ch) \<in> set chunks" and r2: "acct (rep (acct ch)) = acct ch"
      by blast+
    show ?thesis by (rule assms [rule_format, OF r1 that r2])
  qed
  then have "\<forall>ch \<in> set chunks. (\<lambda>a. cost (rep a)) (acct ch) = cost ch" by simp
  then show ?thesis by (rule exI [of _ "\<lambda>a. cost (rep a)"])
qed

lemma total_cost_uniform:
  assumes "0 \<le> budget" and "\<forall>ch \<in> set chunks. 0 \<le> cost ch"
    and "\<forall>ch \<in> set chunks. \<forall>ch' \<in> set chunks. acct ch = acct ch' \<longrightarrow> cost ch = cost ch'"
  shows "\<exists>l total al chosen.
           knapsack_solve budget chunks = Inr (l, total, al) \<and>
           (\<forall>f. (\<forall>ch \<in> set chunks. f (acct ch) = cost ch) \<longrightarrow>
                total = (\<Sum>(a, n)\<leftarrow>al. n * f a)) \<and>
           mset chosen \<subseteq># mset chunks \<and>
           (\<forall>a. orders_get al a 0 = int (length (filter (\<lambda>ch. acct ch = a) chosen))) \<and>
           fst ` set al = acct ` set chosen \<and>
           l = sum_list (map liquidity chosen) \<and>
           total = sum_list (map cost chosen) \<and> total \<le> budget"
proof -
  from solve_reached [OF assms(1,2)] obtain chosen where
    ch: "mset chosen \<subseteq># mset chunks" "sum_list (map cost chosen) \<le> budget"
    "knapsack_solve budget chunks =
       Inr (sum_list (map liquidity chosen), total_cost_of chunks (orders_of chosen),
            orders_of chosen)" by blast
  have "set chosen \<subseteq> set chunks" using ch(1) by (metis set_mset_mono set_mset_mset)
  then have keys: "fst ` set (orders_of chosen) \<subseteq> acct ` set chunks"
    by (auto simp: keys_orders_of)
  have gen: "total_cost_of chunks (orders_of chosen) = (\<Sum>(a, n)\<leftarrow>orders_of chosen. n * f a)"
    if "\<forall>ch \<in> set chunks. f (acct ch) = cost ch" for f
    using that keys by (rule total_cost_of_sum)
  from uniform_cost_function [OF assms(3)] obtain f where
    f: "\<forall>ch \<in> set chunks. f (acct ch) = cost ch" by blast
  have "total_cost_of chunks (orders_of chosen) = sum_list (map cost chosen)"
    using gen [OF f] sum_orders_of [of f chosen] sum_list_cost_uniform [OF f ch(1)] by simp
  have tc: "total_cost_of chunks (orders_of chosen) = sum_list (map cost chosen)" by fact
  have 1: "\<forall>f. (\<forall>ch \<in> set chunks. f (acct ch) = cost ch) \<longrightarrow>
      total_cost_of chunks (orders_of chosen) = (\<Sum>(a, n)\<leftarrow>orders_of chosen. n * f a)"
    using gen by blast
  have 2: "\<forall>a. orders_get (orders_of chosen) a 0 =
      int (length (filter (\<lambda>ch. acct ch = a) chosen))"
    by (simp add: orders_get_orders_of)
  have 3: "fst ` set (orders_of chosen) = acct ` set chosen" by (rule keys_orders_of)
  have 4: "total_cost_of chunks (orders_of chosen) \<le> budget" using tc ch(2) by simp
  from ch(3) 1 ch(1) 2 3 tc 4 show ?thesis by blast
qed

text \<open>
  C3. For every non-negative budget and every chunk set with non-negative costs in which
  all chunks sharing an account have the same cost, the solver returns, and the total
  cost it returns is the sum, over the accounts of the returned allocation, of the
  account's chunk count times the account's per-chunk cost. It is the cost of chunks
  actually chosen: some of the given chunks, whose number per account is the allocation's
  count, whose liquidities add up to the returned liquidity and whose costs add up to the
  returned total, which stays within the budget.
\<close>

theorem total_cost_is_allocation_cost:
  assumes "0 \<le> budget" and "\<forall>ch \<in> set chunks. 0 \<le> cost ch"
    and "\<forall>ch \<in> set chunks. \<forall>ch' \<in> set chunks. acct ch = acct ch' \<longrightarrow> cost ch = cost ch'"
  shows "\<exists>l total al chosen.
           knapsack_solve budget chunks = Inr (l, total, al) \<and>
           (\<forall>f. (\<forall>ch \<in> set chunks. f (acct ch) = cost ch) \<longrightarrow>
                total = (\<Sum>(a, n)\<leftarrow>al. n * f a)) \<and>
           mset chosen \<subseteq># mset chunks \<and>
           (\<forall>a. orders_get al a 0 = int (length (filter (\<lambda>ch. acct ch = a) chosen))) \<and>
           fst ` set al = acct ` set chosen \<and>
           l = sum_list (map liquidity chosen) \<and>
           total = sum_list (map cost chosen) \<and> total \<le> budget"
  using assms by (rule total_cost_uniform)

theorem total_cost_is_allocation_cost_witness:
  "knapsack_solve 3 [chunk_A, chunk_B] = Inr (170, 3, [(''A'', 1), (''B'', 1)]) \<and>
   (3 :: int) = (\<Sum>(a, n)\<leftarrow>[(''A'', 1), (''B'', 1)]. n * (if a = ''A'' then 1 else 2))"
proof -
  let ?cs = "[chunk_A, chunk_B]"
  let ?f = "\<lambda>a. if a = ''A'' then 1 else (2 :: int)"
  have e: "knapsack_solve 3 ?cs = Inr (170, 3, [(''A'', 1), (''B'', 1)])" by code_simp
  have h1: "(0 :: int) \<le> 3" by simp
  have h2: "\<forall>ch \<in> set ?cs. 0 \<le> cost ch" by (simp add: chunk_A_def chunk_B_def)
  have h3: "\<forall>ch \<in> set ?cs. \<forall>ch' \<in> set ?cs. acct ch = acct ch' \<longrightarrow> cost ch = cost ch'"
    by (simp add: chunk_A_def chunk_B_def)
  have hf: "\<forall>ch \<in> set ?cs. ?f (acct ch) = cost ch" by (simp add: chunk_A_def chunk_B_def)
  from total_cost_is_allocation_cost [OF h1 h2 h3] obtain l total al where
    s: "knapsack_solve 3 ?cs = Inr (l, total, al)"
    and g: "\<forall>f. (\<forall>ch \<in> set ?cs. f (acct ch) = cost ch) \<longrightarrow> total = (\<Sum>(a, n)\<leftarrow>al. n * f a)"
    by blast
  from s e have t: "total = 3" and a: "al = [(''A'', 1), (''B'', 1)]" by simp_all
  from g [rule_format, of ?f] hf have "total = (\<Sum>(a, n)\<leftarrow>al. n * ?f a)" by simp
  then have "(3 :: int) = (\<Sum>(a, n)\<leftarrow>[(''A'', 1), (''B'', 1)]. n * ?f a)"
    by (simp only: t a)
  with e show ?thesis by blast
qed


section \<open>Properties of the curve sampler\<close>

lemma relax_length: "relax ch dp b = Inr dp' \<Longrightarrow> length dp' = length dp"
  by (auto simp: relax_def Let_def split: sum.splits prod.splits if_splits)

lemma inner_loop_length: "inner_loop ch b dp = Inr dp' \<Longrightarrow> length dp' = length dp"
proof (induction ch b dp rule: inner_loop.induct)
  case (1 ch b dp)
  show ?case
  proof (cases "b \<le> cost ch - 1")
    case True
    then show ?thesis using "1.prems" by (simp add: inner_loop.simps)
  next
    case False
    then obtain dp1 where r: "relax ch dp b = Inr dp1" and i: "inner_loop ch (b - 1) dp1 = Inr dp'"
      using "1.prems" by (subst (asm) inner_loop.simps) (auto split: sum.splits)
    have "length dp' = length dp1" using "1.IH" [OF False r i] .
    then show ?thesis using relax_length [OF r] by simp
  qed
qed

lemma outer_loop_length: "outer_loop b cs dp = Inr dp' \<Longrightarrow> length dp' = length dp"
proof (induction cs arbitrary: dp)
  case Nil
  then show ?case by simp
next
  case (Cons ch cs)
  from Cons.prems obtain dp1 where i: "inner_loop ch b dp = Inr dp1"
    and o: "outer_loop b cs dp1 = Inr dp'"
    by (auto split: sum.splits)
  show ?case using Cons.IH [OF o] inner_loop_length [OF i] by simp
qed

lemma solve_returns_budget:
  assumes "knapsack_solve b cs = Inr r"
  shows "0 \<le> b"
proof (rule ccontr)
  assume "\<not> 0 \<le> b"
  then have e: "replicate (nat (b + 1)) (0 :: int, [] :: orders) = []" by simp
  from assms obtain dp where o: "outer_loop b cs [] = Inr dp" and m: "py_max_liq dp \<noteq> Inl ValueError"
    unfolding knapsack_solve_def e by (auto split: sum.splits)
  from outer_loop_length [OF o] have "dp = []" by simp
  with m show False by simp
qed

lemma inner_loop_negative_cost:
  assumes "cost ch < 0" and "0 \<le> b" and "length dp = nat (b + 1)"
  shows "inner_loop ch b dp = Inl IndexError"
proof -
  have "py_index dp (b - cost ch) = Inl IndexError"
    using assms by (simp add: py_index_def Let_def)
  then have "relax ch dp b = Inl IndexError" by (simp add: relax_def)
  moreover have "\<not> b \<le> cost ch - 1" using assms by simp
  ultimately show ?thesis by (subst inner_loop.simps) simp
qed

lemma outer_loop_nonneg:
  assumes "0 \<le> b" and "length dp = nat (b + 1)" and "outer_loop b cs dp = Inr dp'"
  shows "\<forall>ch \<in> set cs. 0 \<le> cost ch"
  using assms(2,3)
proof (induction cs arbitrary: dp)
  case Nil
  then show ?case by simp
next
  case (Cons ch cs)
  from Cons.prems(2) obtain dp1 where i: "inner_loop ch b dp = Inr dp1"
    and o: "outer_loop b cs dp1 = Inr dp'"
    by (auto split: sum.splits)
  have c: "0 \<le> cost ch"
  proof (rule ccontr)
    assume "\<not> 0 \<le> cost ch"
    then have "inner_loop ch b dp = Inl IndexError"
      using assms(1) Cons.prems(1) by (intro inner_loop_negative_cost) auto
    with i show False by simp
  qed
  have "length dp1 = nat (b + 1)" using inner_loop_length [OF i] Cons.prems(1) by simp
  from Cons.IH [OF this o] c show ?case by simp
qed

lemma solve_returns_nonneg:
  assumes "knapsack_solve b cs = Inr r"
  shows "0 \<le> b \<and> (\<forall>ch \<in> set cs. 0 \<le> cost ch)"
proof -
  have b: "0 \<le> b" using assms by (rule solve_returns_budget)
  from assms obtain dp where o: "outer_loop b cs (replicate (nat (b + 1)) (0, [])) = Inr dp"
    unfolding knapsack_solve_def by (auto split: sum.splits)
  have "\<forall>ch \<in> set cs. 0 \<le> cost ch"
    using b _ o by (rule outer_loop_nonneg) simp
  with b show ?thesis by blast
qed

lemma sum_mset_list: "(\<Sum>x\<in>#mset xs. f x) = sum_list (map f xs)" for f :: "chunk \<Rightarrow> int"
  by (induction xs) simp_all

lemma solve_sub_multiset:
  assumes s: "knapsack_solve b cs = Inr (l, c, a)" and sub: "mset cs' \<subseteq># mset cs"
  shows "\<exists>l' c' a'. knapsack_solve b cs' = Inr (l', c', a') \<and> l' \<le> l"
proof -
  from solve_returns_nonneg [OF s] have b: "0 \<le> b" and nn: "\<forall>ch \<in> set cs. 0 \<le> cost ch"
    by blast+
  have "set cs' \<subseteq> set cs" using sub by (metis set_mset_mono set_mset_mset)
  then have nn': "\<forall>ch \<in> set cs'. 0 \<le> cost ch" using nn by blast
  from knapsack_solve_table [OF b nn] obtain r where
    r: "\<forall>y \<in> set (table b cs). fst y \<le> fst r"
       "knapsack_solve b cs = Inr (fst r, total_cost_of cs (snd r), snd r)" by blast
  from r(2) s have l: "l = fst r" by simp
  from knapsack_solve_table [OF b nn'] obtain r' where
    r': "r' \<in> set (table b cs')"
        "knapsack_solve b cs' = Inr (fst r', total_cost_of cs' (snd r'), snd r')" by blast
  from r'(1) obtain i where i: "i < length (table b cs')" "table b cs' ! i = r'"
    unfolding in_set_conv_nth by blast
  have "reached cs' i (table b cs' ! i)"
    by (rule table_reached [OF nn', of b, rule_format, OF i(1)])
  then have "reached cs' i r'" by (simp only: i(2))
  then obtain chosen where ch: "mset chosen \<subseteq># mset cs'"
    "sum_list (map cost chosen) \<le> int i" "fst r' = sum_list (map liquidity chosen)"
    unfolding reached_def by blast
  have il: "i < length (table b cs)" using i(1) by simp
  have "dominates cs i (table b cs ! i)"
    by (rule table_dominates [OF nn, of b, rule_format, OF il])
  moreover have "mset chosen \<subseteq># mset cs" using ch(1) sub by (rule subset_mset.order_trans)
  moreover have "(\<Sum>x\<in>#mset chosen. cost x) \<le> int i" using ch(2) by (simp only: sum_mset_list)
  ultimately have "(\<Sum>x\<in>#mset chosen. liquidity x) \<le> fst (table b cs ! i)"
    unfolding dominates_def by blast
  then have "fst r' \<le> fst (table b cs ! i)" using ch(3) by (simp only: sum_mset_list)
  moreover have "table b cs ! i \<in> set (table b cs)" using il by (rule nth_mem)
  ultimately have "fst r' \<le> l" using r(1) l by fastforce
  with r'(2) show ?thesis by blast
qed

lemma the_chunks_Inr: "offer_chunks inc off = Inr c \<Longrightarrow> the_chunks inc off = c"
  by (simp add: the_chunks_def)

lemma make_chunks_Inr_iff:
  "make_chunks inc offs = Inr cs \<longleftrightarrow>
     (\<forall>off \<in> set offs. \<exists>c. offer_chunks inc off = Inr c) \<and>
     cs = concat (map (the_chunks inc) offs)"
proof (induction offs arbitrary: cs)
  case Nil
  show ?case by auto
next
  case (Cons off offs)
  show ?case
  proof (cases "offer_chunks inc off")
    case (Inl e)
    then show ?thesis by auto
  next
    case (Inr c)
    show ?thesis
    proof (cases "make_chunks inc offs")
      case (Inl e)
      then have "\<not> (\<forall>x \<in> set offs. \<exists>c. offer_chunks inc x = Inr c)"
        using Cons.IH [of "concat (map (the_chunks inc) offs)"] by auto
      then show ?thesis using Inl Inr by auto
    next
      case r: (Inr rest)
      then have "(\<forall>x \<in> set offs. \<exists>c. offer_chunks inc x = Inr c) \<and>
          rest = concat (map (the_chunks inc) offs)"
        using Cons.IH [of rest] by simp
      then show ?thesis using Inr r by (auto simp: the_chunks_Inr)
    qed
  qed
qed

lemma mset_concat_map:
  "mset (concat (map f xs)) = (\<Sum>x\<in>#mset xs. mset (f x))"
  by (induction xs) simp_all

lemma make_chunks_sub_multiset:
  assumes m: "make_chunks inc ys = Inr cs" and sub: "mset xs \<subseteq># mset ys"
  shows "\<exists>cs'. make_chunks inc xs = Inr cs' \<and> mset cs' \<subseteq># mset cs"
proof -
  from m have ok: "\<forall>off \<in> set ys. \<exists>c. offer_chunks inc off = Inr c"
    and cs: "cs = concat (map (the_chunks inc) ys)"
    unfolding make_chunks_Inr_iff by blast+
  have "set xs \<subseteq> set ys" using sub by (metis set_mset_mono set_mset_mset)
  then have ok': "\<forall>off \<in> set xs. \<exists>c. offer_chunks inc off = Inr c" using ok by blast
  let ?cs' = "concat (map (the_chunks inc) xs)"
  have 1: "make_chunks inc xs = Inr ?cs'" unfolding make_chunks_Inr_iff using ok' by blast
  from sub obtain Z where Z: "mset ys = mset xs + Z"
    by (metis subset_mset.le_iff_add)
  have "mset cs = (\<Sum>x\<in>#mset ys. mset (the_chunks inc x))"
    unfolding cs by (rule mset_concat_map)
  also have "\<dots> = (\<Sum>x\<in>#mset xs. mset (the_chunks inc x)) + (\<Sum>x\<in>#Z. mset (the_chunks inc x))"
    unfolding Z by simp
  finally have "mset cs = mset ?cs' + (\<Sum>x\<in>#Z. mset (the_chunks inc x))"
    by (simp only: mset_concat_map)
  then have "mset ?cs' \<subseteq># mset cs" by simp
  with 1 show ?thesis by blast
qed

lemma price_keys_Inr_iff:
  "price_keys offs = Inr kos \<longleftrightarrow>
     (\<forall>off \<in> set offs. \<exists>k. offer_price_per_sat off = Inr k) \<and>
     kos = map (\<lambda>off. (case offer_price_per_sat off of Inl e \<Rightarrow> 0 | Inr k \<Rightarrow> k, off)) offs"
proof (induction offs arbitrary: kos)
  case Nil
  show ?case by auto
next
  case (Cons off offs)
  let ?g = "\<lambda>off. (case offer_price_per_sat off of Inl e \<Rightarrow> 0 | Inr k \<Rightarrow> k, off)"
  show ?case
  proof (cases "offer_price_per_sat off")
    case (Inl e)
    then show ?thesis by auto
  next
    case (Inr k)
    show ?thesis
    proof (cases "price_keys offs")
      case (Inl e)
      then have "\<not> (\<forall>x \<in> set offs. \<exists>k. offer_price_per_sat x = Inr k)"
        using Cons.IH [of "map ?g offs"] by auto
      then show ?thesis using Inl Inr by auto
    next
      case r: (Inr rest)
      then have "(\<forall>x \<in> set offs. \<exists>k. offer_price_per_sat x = Inr k) \<and> rest = map ?g offs"
        using Cons.IH [of rest] by simp
      then show ?thesis using Inr r by auto
    qed
  qed
qed

lemma sorted_by_price_mset:
  assumes "sorted_by_price offs = Inr srt"
  shows "mset srt = mset offs"
proof -
  from assms obtain kos where k: "price_keys offs = Inr kos" and s: "srt = map snd (sort_key fst kos)"
    unfolding sorted_by_price_def by (auto split: sum.splits)
  from k have "map snd kos = offs" unfolding price_keys_Inr_iff by (simp add: comp_def)
  then have "mset (map snd kos) = mset offs" by simp
  moreover have "mset (map snd (sort_key fst kos)) = mset (map snd kos)" by simp
  ultimately show ?thesis using s by simp
qed

lemma sorted_by_price_filter:
  assumes "sorted_by_price offs = Inr srt"
  shows "\<exists>srt'. sorted_by_price (filter P offs) = Inr srt'"
proof -
  from assms obtain kos where "price_keys offs = Inr kos"
    unfolding sorted_by_price_def by (auto split: sum.splits)
  then have "\<forall>off \<in> set offs. \<exists>k. offer_price_per_sat off = Inr k"
    unfolding price_keys_Inr_iff by blast
  then have "\<forall>off \<in> set (filter P offs). \<exists>k. offer_price_per_sat off = Inr k" by simp
  then have "\<exists>kos'. price_keys (filter P offs) = Inr kos'"
    unfolding price_keys_Inr_iff by blast
  then show ?thesis unfolding sorted_by_price_def by auto
qed

lemma variant_ordering:
  assumes srt: "sorted_by_price offers = Inr offers_clearnet_sorted"
    and all: "knapsack_liquidity budget_sats offers_clearnet_sorted True = Inr (l, c, a)"
  shows "\<exists>l' c' a'. variant_solutions budget_sats offers = Inr ((l', c', a'), (l, c, a)) \<and> l' \<le> l"
proof -
  let ?tor = "filter (\<lambda>off. \<not> is_tor_restricted off) offers"
  from sorted_by_price_filter [OF srt] obtain tsrt where
    tsrt: "sorted_by_price ?tor = Inr tsrt" by blast
  have "mset tsrt = mset ?tor" using tsrt by (rule sorted_by_price_mset)
  moreover have "mset offers_clearnet_sorted = mset offers" using srt by (rule sorted_by_price_mset)
  ultimately have sub: "mset tsrt \<subseteq># mset offers_clearnet_sorted" by simp
  from all obtain cs where cs: "make_chunks True offers_clearnet_sorted = Inr cs"
    and sv: "knapsack_solve budget_sats cs = Inr (l, c, a)"
    unfolding knapsack_liquidity_def by (auto split: sum.splits)
  from make_chunks_sub_multiset [OF cs sub] obtain cs' where
    cs': "make_chunks True tsrt = Inr cs'" "mset cs' \<subseteq># mset cs" by blast
  from solve_sub_multiset [OF sv cs'(2)] obtain l' c' a' where
    t: "knapsack_solve budget_sats cs' = Inr (l', c', a')" "l' \<le> l" by blast
  have "knapsack_liquidity budget_sats tsrt True = Inr (l', c', a')"
    by (simp add: knapsack_liquidity_def cs'(1) t(1))
  then have "variant_solutions budget_sats offers = Inr ((l', c', a'), (l, c, a))"
    by (simp add: variant_solutions_def Let_def tsrt srt all)
  with t(2) show ?thesis by blast
qed

text \<open>
  C7. For every offer dataset and every budget: whenever the solve over all offers
  returns, the solve over the offers that are not restricted returns as well, and the
  maximum liquidity of the all-offers variant is greater than or equal to the one of the
  restricted-excluded variant; the chunks of the latter are a sub-multiset of the chunks
  of the former.
\<close>

theorem all_offers_liquidity_dominates:
  "(variant_solutions budget_sats offers = Inr ((l', c', a'), (l, c, a)) \<longrightarrow> l' \<le> l) \<and>
   (sorted_by_price offers = Inr offers_clearnet_sorted \<and>
    knapsack_liquidity budget_sats offers_clearnet_sorted True = Inr (l, c, a) \<longrightarrow>
      (\<exists>l' c' a'. variant_solutions budget_sats offers = Inr ((l', c', a'), (l, c, a)) \<and>
                   l' \<le> l))"
proof -
  have 2: "\<exists>l' c' a'. variant_solutions budget_sats offers = Inr ((l', c', a'), (l, c, a)) \<and> l' \<le> l"
    if "sorted_by_price offers = Inr srt"
      and "knapsack_liquidity budget_sats srt True = Inr (l, c, a)" for srt
    using that by (rule variant_ordering)
  have 1: "l' \<le> l" if v: "variant_solutions budget_sats offers = Inr ((l', c', a'), (l, c, a))"
  proof -
    from v obtain srt where s: "sorted_by_price offers = Inr srt"
      and k: "knapsack_liquidity budget_sats srt True = Inr (l, c, a)"
      unfolding variant_solutions_def Let_def by (auto split: sum.splits)
    from 2 [OF s k] v show ?thesis by auto
  qed
  from 1 2 show ?thesis by blast
qed

theorem all_offers_liquidity_dominates_witness:
  "variant_solutions 2 [tor_ok_offer, clearnet_only_offer] =
     Inr ((50, 1, [(''A'', 1)]), (120, 2, [(''B'', 1)])) \<and> (50 :: int) \<le> 120"
proof -
  have e: "variant_solutions 2 [tor_ok_offer, clearnet_only_offer] =
     Inr ((50, 1, [(''A'', 1)]), (120, 2, [(''B'', 1)]))"
    by code_simp
  from e all_offers_liquidity_dominates
    [of 2 "[tor_ok_offer, clearnet_only_offer]" 50 1 "[(''A'', 1)]" 120 2 "[(''B'', 1)]" "[]"]
  have "(50 :: int) \<le> 120" by blast
  with e show ?thesis by blast
qed


section \<open>Properties of the float operations and of the currency conversion\<close>
























section \<open>Properties of the checkpoint annotations\<close>




lemma np_where_eq_Nil: "np_where_eq xs k = [] \<longleftrightarrow> k \<notin> set xs"
  by (auto simp: np_where_eq_def filter_empty_conv in_set_conv_nth)

lemma grid_index_None: "grid_index coarse k = None \<longleftrightarrow> k \<notin> set coarse"
proof (cases "np_where_eq coarse k")
  case Nil
  then show ?thesis using np_where_eq_Nil [of coarse k] by (simp add: grid_index_def)
next
  case (Cons i rest)
  then have "np_where_eq coarse k \<noteq> []" by simp
  then have "k \<in> set coarse" using np_where_eq_Nil [of coarse k] by blast
  then show ?thesis using Cons by (simp add: grid_index_def)
qed












end
